theory Spec2Isabelle
  imports Main "HOL-Library.Extended_Nat" "HOL-Library.Signed_Division"
begin

section \<open>Strings, arrays and maps of the host language\<close>

text \<open>
  A string is a list of code units. Isabelle's \<open>char\<close> covers the code units 0 to 255,
  so the white space of \<open>String.prototype.trim\<close> and of the regular expression class
  \<open>\s\<close> is the part of that set below 256: tab, line feed, vertical tab, form feed,
  carriage return, space and the no-break space.
\<close>

definition newline :: char where
  "newline = CHR 0x0A"

definition isSpace :: "char \<Rightarrow> bool" where
  "isSpace c = (c \<in> set [CHR 0x09, CHR 0x0A, CHR 0x0B, CHR 0x0C, CHR 0x0D, CHR 0x20, CHR 0xA0])"

definition isDigit :: "char \<Rightarrow> bool" where
  "isDigit c = (c \<in> set ''0123456789'')"

text \<open>\<open>s.trim()\<close>: white space removed at both ends.\<close>

definition trim :: "string \<Rightarrow> string" where
  "trim s = rev (dropWhile isSpace (rev (dropWhile isSpace s)))"

text \<open>\<open>s.split('\n')\<close>: never the empty array; the empty string gives one empty line.\<close>

fun splitNl :: "string \<Rightarrow> string list" where
  "splitNl [] = [[]]"
| "splitNl (c # cs) =
     (if c = newline then [] # splitNl cs
      else (case splitNl cs of [] \<Rightarrow> [[c]] | l # ls \<Rightarrow> (c # l) # ls))"

text \<open>\<open>lines.join('\n')\<close>.\<close>

fun joinNl :: "string list \<Rightarrow> string" where
  "joinNl [] = []"
| "joinNl [l] = l"
| "joinNl (l # ls) = l @ newline # joinNl ls"

text \<open>
  \<open>lines[index] = value\<close>. Past the end the array is extended; the holes in between
  read as \<open>undefined\<close>, which \<open>join\<close> prints as the empty string, and every array
  written this way is only read through \<open>join\<close> and \<open>slice\<close>, so a hole is modelled
  as the empty line.
\<close>

definition arraySet :: "string list \<Rightarrow> nat \<Rightarrow> string \<Rightarrow> string list" where
  "arraySet lines index v =
     (if index < length lines then lines[index := v]
      else lines @ replicate (index - length lines) [] @ [v])"

text \<open>\<open>lines.splice(index, 1)\<close>: removes the element at \<open>index\<close>, nothing past the end.\<close>

definition spliceRemove :: "'a list \<Rightarrow> nat \<Rightarrow> 'a list" where
  "spliceRemove lines index = take index lines @ drop (Suc index) lines"

text \<open>\<open>lines.splice(index, 0, v)\<close>: inserts before \<open>index\<close>, at the end when past it.\<close>

definition spliceInsert :: "'a list \<Rightarrow> nat \<Rightarrow> 'a \<Rightarrow> 'a list" where
  "spliceInsert lines index v = take index lines @ v # drop index lines"

text \<open>
  A \<open>Map<number, number>\<close> is an association list in insertion order with distinct keys.
  \<open>set\<close> overwrites the value of a key that is present, in place, and appends a new key;
  \<open>forEach\<close> visits the entries in list order.
\<close>

type_synonym ('k, 'v) jsmap = "('k \<times> 'v) list"

definition wfMap :: "('k, 'v) jsmap \<Rightarrow> bool" where
  "wfMap m = distinct (map fst m)"

definition mapGet :: "('k, 'v) jsmap \<Rightarrow> 'k \<Rightarrow> 'v option" where
  "mapGet m k = map_of m k"

definition mapHas :: "('k, 'v) jsmap \<Rightarrow> 'k \<Rightarrow> bool" where
  "mapHas m k = (map_of m k \<noteq> None)"

fun mapSet :: "'k \<Rightarrow> 'v \<Rightarrow> ('k, 'v) jsmap \<Rightarrow> ('k, 'v) jsmap" where
  "mapSet k v [] = [(k, v)]"
| "mapSet k v ((k', v') # m) = (if k' = k then (k, v) # m else (k', v') # mapSet k v m)"

definition mapDelete :: "'k \<Rightarrow> ('k, 'v) jsmap \<Rightarrow> ('k, 'v) jsmap" where
  "mapDelete k m = filter (\<lambda>(k', v'). k' \<noteq> k) m"

datatype error = TypeError

datatype key = Enter | Backspace | OtherKey

section \<open>The recording clock\<close>

definition TIME_OFFSET_MS :: int where
  "TIME_OFFSET_MS = 2000"

text \<open>
  \<open>Math.max(0, (Date.now() - recordingStartTime.current) - TIME_OFFSET_MS)\<close>, with the
  reading of the clock passed in as \<open>now\<close>.
\<close>

definition adjustedDuration :: "int \<Rightarrow> int \<Rightarrow> int" where
  "adjustedDuration now startedAt = max 0 ((now - startedAt) - TIME_OFFSET_MS)"

section \<open>The line-indexed editor (first component of NotesEditor.tsx)\<close>

text \<open>
  The component's state: its own \<open>lineTimestamps\<close>, the ref \<open>recordingStartTime\<close>, and
  the props \<open>notes\<close>, \<open>timestampMap\<close> and \<open>isRecording\<close>. The callbacks
  \<open>onNotesChange\<close> and \<open>onTimestampMapChange\<close> are the parent storing the value that
  it passes back as the prop.
\<close>

record editorA =
  notesA :: string
  timestampMapA :: "(nat, int) jsmap"
  lineTimestampsA :: "(nat, int) jsmap"
  isRecordingA :: bool
  recordingStartTimeA :: int

text \<open>
  \<open>lines.slice(0, lineIndex).join('\n').length + (lineIndex > 0 ? 1 : 0)\<close>: the offset
  at which line \<open>lineIndex\<close> starts.
\<close>

definition lineStartPos :: "string list \<Rightarrow> nat \<Rightarrow> nat" where
  "lineStartPos lines lineIndex =
     length (joinNl (take lineIndex lines)) + (if lineIndex > 0 then 1 else 0)"

definition syncToParentTimestampMap :: "string list \<Rightarrow> (nat, int) jsmap \<Rightarrow> (nat, int) jsmap" where
  "syncToParentTimestampMap lines lts =
     fold (\<lambda>(lineIndex, time) newMap. mapSet (lineStartPos lines lineIndex) time newMap) lts []"

text \<open>
  The \<open>for\<close> loop of the effect that rebuilds \<open>lineTimestamps\<close> from the parent's map:
  the first line \<open>i\<close> with \<open>position >= currentPos && position <= lineEnd + 1\<close>.
\<close>

fun positionToLine :: "nat \<Rightarrow> string list \<Rightarrow> nat \<Rightarrow> nat \<Rightarrow> nat option" where
  "positionToLine position [] i currentPos = None"
| "positionToLine position (l # ls) i currentPos =
     (let lineEnd = currentPos + length l in
      if position \<ge> currentPos \<and> position \<le> lineEnd + 1 then Some i
      else positionToLine position ls (i + 1) (lineEnd + 1))"

definition syncFromParent :: "editorA \<Rightarrow> editorA" where
  "syncFromParent st =
     st\<lparr>lineTimestampsA :=
          fold (\<lambda>(position, time) newLineTimestamps.
                  case positionToLine position (splitNl (notesA st)) 0 0 of
                    Some i \<Rightarrow> mapSet i time newLineTimestamps
                  | None \<Rightarrow> newLineTimestamps)
               (timestampMapA st) []\<rparr>"

text \<open>
  The renumbering after a line is removed at \<open>index\<close>: entries below keep their key,
  entries above move down by one, the entry at \<open>index\<close> is dropped.
\<close>

definition removeShift :: "nat \<Rightarrow> (nat, int) jsmap \<Rightarrow> (nat, int) jsmap" where
  "removeShift index lts =
     fold (\<lambda>(lineIndex, time) newLineTimestamps.
             if lineIndex < index then mapSet lineIndex time newLineTimestamps
             else if lineIndex > index then mapSet (lineIndex - 1) time newLineTimestamps
             else newLineTimestamps)
          lts []"

text \<open>The renumbering after a line is inserted at \<open>index + 1\<close>.\<close>

definition insertShift :: "nat \<Rightarrow> (nat, int) jsmap \<Rightarrow> (nat, int) jsmap" where
  "insertShift index lts =
     fold (\<lambda>(lineIndex, time) newLineTimestamps.
             if lineIndex < index + 1 then mapSet lineIndex time newLineTimestamps
             else mapSet (lineIndex + 1) time newLineTimestamps)
          lts []"

text \<open>
  \<open>handleLineChange(index, value)\<close>. \<open>oldLine\<close> is \<open>undefined\<close> for an index past the
  end; \<open>oldLine.trim()\<close> then throws, and it is evaluated only when \<open>isRecording\<close> holds.
\<close>

definition handleLineChangeA :: "int \<Rightarrow> nat \<Rightarrow> string \<Rightarrow> editorA \<Rightarrow> error + editorA" where
  "handleLineChangeA now index v st =
     (let lines = splitNl (notesA st);
          oldLine = (if index < length lines then Some (lines ! index) else None)
      in if v = [] \<and> length lines > 1 then
           (let lines' = spliceRemove lines index;
                newLineTimestamps = removeShift index (lineTimestampsA st)
            in Inr (st\<lparr>lineTimestampsA := newLineTimestamps,
                        notesA := joinNl lines',
                        timestampMapA := syncToParentTimestampMap lines' newLineTimestamps\<rparr>))
         else
           (let lines' = arraySet lines index v in
            if isRecordingA st then
              (case oldLine of
                 None \<Rightarrow> Inl TypeError
               | Some old \<Rightarrow>
                   if length (trim old) = 0 \<and> length (trim v) > 0
                      \<and> \<not> mapHas (lineTimestampsA st) index then
                     (let newLineTimestamps =
                            mapSet index (adjustedDuration now (recordingStartTimeA st))
                              (lineTimestampsA st)
                      in Inr (st\<lparr>lineTimestampsA := newLineTimestamps,
                                  timestampMapA := syncToParentTimestampMap lines' newLineTimestamps,
                                  notesA := joinNl lines'\<rparr>))
                   else Inr (st\<lparr>notesA := joinNl lines'\<rparr>))
            else Inr (st\<lparr>notesA := joinNl lines'\<rparr>)))"

text \<open>
  \<open>handleKeyDown(index, e)\<close> with \<open>e.key\<close> and the cursor position
  \<open>target.selectionStart\<close>. \<open>currentLine.substring\<close> and \<open>prevLine.length\<close> throw on
  \<open>undefined\<close>; \<open>prevLine + currentLine\<close> with \<open>currentLine\<close> undefined appends the
  text \<open>undefined\<close>.
\<close>

definition handleKeyDownA :: "nat \<Rightarrow> key \<Rightarrow> nat \<Rightarrow> editorA \<Rightarrow> error + editorA" where
  "handleKeyDownA index k cursorPos st =
     (let lines = splitNl (notesA st);
          currentLine = (if index < length lines then Some (lines ! index) else None)
      in if k = Enter then
           (case currentLine of
              None \<Rightarrow> Inl TypeError
            | Some cur \<Rightarrow>
                (let beforeCursor = take cursorPos cur;
                     afterCursor = drop cursorPos cur;
                     lines' = spliceInsert (arraySet lines index beforeCursor) (index + 1) afterCursor;
                     newLineTimestamps = insertShift index (lineTimestampsA st)
                 in Inr (st\<lparr>lineTimestampsA := newLineTimestamps,
                             notesA := joinNl lines',
                             timestampMapA := syncToParentTimestampMap lines' newLineTimestamps\<rparr>)))
         else if k = Backspace \<and> cursorPos = 0 \<and> index > 0 then
           (if index - 1 < length lines then
              (let prevLine = lines ! (index - 1);
                   cur = (case currentLine of Some c \<Rightarrow> c | None \<Rightarrow> ''undefined'');
                   lines' = spliceRemove (arraySet lines (index - 1) (prevLine @ cur)) index;
                   newLineTimestamps = removeShift index (lineTimestampsA st)
               in Inr (st\<lparr>lineTimestampsA := newLineTimestamps,
                           notesA := joinNl lines',
                           timestampMapA := syncToParentTimestampMap lines' newLineTimestamps\<rparr>))
            else Inl TypeError)
         else Inr st)"



section \<open>The offset-indexed editor (third component of NotesEditor.tsx)\<close>

text \<open>
  This component keeps no map of its own: the anchors are the keys of the prop
  \<open>timestampMap\<close>, which are character offsets of line starts.
\<close>

record editorC =
  notesC :: string
  timestampMapC :: "(nat, int) jsmap"
  isRecordingC :: bool
  recordingStartTimeC :: int

definition handleLineChangeC :: "int \<Rightarrow> nat \<Rightarrow> string \<Rightarrow> editorC \<Rightarrow> editorC" where
  "handleLineChangeC now index v st =
     (let lines = arraySet (splitNl (notesC st)) index v in
      if isRecordingC st \<and> length (trim v) > 0 then
        (let pos = lineStartPos lines index in
         if \<not> mapHas (timestampMapC st) pos then
           st\<lparr>timestampMapC :=
                 mapSet pos (adjustedDuration now (recordingStartTimeC st)) (timestampMapC st),
              notesC := joinNl lines\<rparr>
         else st\<lparr>notesC := joinNl lines\<rparr>)
      else st\<lparr>notesC := joinNl lines\<rparr>)"

definition handleKeyDownC :: "nat \<Rightarrow> key \<Rightarrow> nat \<Rightarrow> editorC \<Rightarrow> error + editorC" where
  "handleKeyDownC index k cursorPos st =
     (let lines = splitNl (notesC st);
          currentLine = (if index < length lines then Some (lines ! index) else None)
      in if k = Enter then
           (case currentLine of
              None \<Rightarrow> Inl TypeError
            | Some cur \<Rightarrow>
                (let beforeCursor = take cursorPos cur;
                     afterCursor = drop cursorPos cur;
                     lines' = spliceInsert (arraySet lines index beforeCursor) (index + 1) afterCursor
                 in Inr (st\<lparr>notesC := joinNl lines'\<rparr>)))
         else if k = Backspace \<and> cursorPos = 0 \<and> index > 0 then
           (if index - 1 < length lines then
              (let prevLine = lines ! (index - 1);
                   cur = (case currentLine of Some c \<Rightarrow> c | None \<Rightarrow> ''undefined'');
                   lines' = spliceRemove (arraySet lines (index - 1) (prevLine @ cur)) index;
                   pos = lineStartPos (splitNl (notesC st)) index
               in if mapHas (timestampMapC st) pos then
                    Inr (st\<lparr>timestampMapC := mapDelete pos (timestampMapC st),
                            notesC := joinNl lines'\<rparr>)
                  else Inr (st\<lparr>notesC := joinNl lines'\<rparr>))
            else Inl TypeError)
         else Inr st)"

text \<open>The number of lines the component renders: \<open>notes.split('\n').length\<close>.\<close>

definition lineCountC :: "editorC \<Rightarrow> nat" where
  "lineCountC st = length (splitNl (notesC st))"

definition lineCountA :: "editorA \<Rightarrow> nat" where
  "lineCountA st = length (splitNl (notesA st))"

section \<open>The rich-text editor (second component of NotesEditor.tsx)\<close>

text \<open>
  \<open>findNearestTimestamp(index)\<close>: \<open>minDist\<close> starts at \<open>Infinity\<close>; an entry replaces
  the current choice when \<open>dist < minDist && dist < 20\<close>.
\<close>

definition findNearestTimestamp :: "(nat, int) jsmap \<Rightarrow> nat \<Rightarrow> int option" where
  "findNearestTimestamp tm index =
     fst (fold (\<lambda>(pos, time) (nearest, minDist).
                  let dist = nat \<bar>int pos - int index\<bar> in
                  if enat dist < minDist \<and> dist < 20 then (Some time, enat dist)
                  else (nearest, minDist))
               tm (None, \<infinity>))"

text \<open>\<open>n.toString()\<close> of an integer: decimal digits, with a minus sign below zero.\<close>

definition digitChar :: "nat \<Rightarrow> char" where
  "digitChar d = ''0123456789'' ! d"

function natToString :: "nat \<Rightarrow> string" where
  "natToString n = (if n < 10 then [digitChar n] else natToString (n div 10) @ [digitChar (n mod 10)])"
  by pat_completeness auto
termination
  by (relation "measure id") auto

declare natToString.simps [simp del]

definition numberToString :: "int \<Rightarrow> string" where
  "numberToString n = (if n < 0 then CHR ''-'' # natToString (nat (- n)) else natToString (nat n))"

text \<open>\<open>s.padStart(2, '0')\<close>.\<close>

definition padStart2 :: "string \<Rightarrow> string" where
  "padStart2 s = replicate (2 - length s) CHR ''0'' @ s"

text \<open>
  \<open>formatTime(ms)\<close>: \<open>Math.floor\<close> of a quotient is \<open>div\<close>, and \<open>%\<close> is the remainder
  with the sign of the dividend, \<open>smod\<close>.
\<close>

definition formatTime :: "int \<Rightarrow> string" where
  "formatTime ms =
     (let totalSeconds = ms div 1000;
          hours = totalSeconds div 3600;
          minutes = (totalSeconds smod 3600) div 60;
          seconds = totalSeconds smod 60
      in padStart2 (numberToString hours) @ '':'' @ padStart2 (numberToString minutes)
         @ '':'' @ padStart2 (numberToString seconds))"

text \<open>The text that \<open>insertTimestampAtPosition\<close> inserts: \<open>`[${timeStr}] `\<close>.\<close>

definition timestampMarker :: "int \<Rightarrow> string" where
  "timestampMarker ms = ''['' @ formatTime ms @ ''] ''"

section \<open>The exporter's timestamp pattern (wordExporter.ts)\<close>

text \<open>
  A sequence of single-character classes matched at the start of a string; the result is
  what follows the match.
\<close>

fun matchSeq :: "(char \<Rightarrow> bool) list \<Rightarrow> string \<Rightarrow> string option" where
  "matchSeq [] s = Some s"
| "matchSeq (p # ps) [] = None"
| "matchSeq (p # ps) (c # cs) = (if p c then matchSeq ps cs else None)"

definition isColon :: "char \<Rightarrow> bool" where
  "isColon c = (c = CHR '':'')"

text \<open>\<open>\d{2}:\d{2}:\d{2}\<close>.\<close>

definition matchCore :: "string \<Rightarrow> string option" where
  "matchCore s =
     matchSeq [isDigit, isDigit, isColon, isDigit, isDigit, isColon, isDigit, isDigit] s"

text \<open>\<open>\]?\s*\<close>: both greedy, and neither can fail.\<close>

definition matchClose :: "string \<Rightarrow> string" where
  "matchClose s = dropWhile isSpace (case s of [] \<Rightarrow> [] | c # cs \<Rightarrow> if c = CHR '']'' then cs else s)"

text \<open>
  One attempt of \<open>/\[?\d{2}:\d{2}:\d{2}\]?\s*/\<close> at the start of a string: the optional
  bracket is tried first, and the attempt without it follows when that fails.
\<close>

definition matchTimestamp :: "string \<Rightarrow> string option" where
  "matchTimestamp s =
     (case (case s of [] \<Rightarrow> None
                     | c # cs \<Rightarrow> if c = CHR ''['' then matchCore cs else None) of
        Some r \<Rightarrow> Some (matchClose r)
      | None \<Rightarrow> map_option matchClose (matchCore s))"

lemma matchSeq_length: "matchSeq ps s = Some r \<Longrightarrow> length s = length ps + length r"
  by (induction ps s rule: matchSeq.induct) (auto split: if_splits)

lemma matchCore_shorter: "matchCore s = Some r \<Longrightarrow> length r < length s"
  by (auto simp: matchCore_def dest: matchSeq_length)

lemma matchClose_le: "length (matchClose s) \<le> length s"
proof -
  have "length (dropWhile isSpace t) \<le> length t" for t
    by (rule length_dropWhile_le)
  then show ?thesis
    unfolding matchClose_def
    by (cases s) (auto intro: le_trans [OF length_dropWhile_le])
qed

lemma matchTimestamp_shorter: "matchTimestamp s = Some r \<Longrightarrow> length r < length s"
  unfolding matchTimestamp_def
  by (cases s)
     (auto split: option.splits if_splits dest!: matchCore_shorter
           intro: le_less_trans [OF matchClose_le])

text \<open>
  \<open>html.replace(/.../g, '')\<close>: the matches are found from left to right, each search
  starting where the previous match ended, and every match is deleted.
\<close>

function removeTimestamps :: "string \<Rightarrow> string" where
  "removeTimestamps [] = []"
| "removeTimestamps (c # cs) =
     (case matchTimestamp (c # cs) of
        Some r \<Rightarrow> removeTimestamps r
      | None \<Rightarrow> c # removeTimestamps cs)"
  by pat_completeness auto
termination
  by (relation "measure length") (auto dest: matchTimestamp_shorter)

section \<open>Specification functions, runs and example states\<close>

text \<open>
  A three-line document with an anchor on every line.
\<close>

definition exA :: editorA where
  "exA = \<lparr>notesA = ''a\<newline>b\<newline>c'', timestampMapA = [(0, 100), (2, 200), (4, 300)],
          lineTimestampsA = [(0, 100), (1, 200), (2, 300)], isRecordingA = True,
          recordingStartTimeA = 0\<rparr>"

text \<open>
  The line-indexed editor at the start of a recording: one empty line, no anchors.
\<close>

definition startA :: editorA where
  "startA = \<lparr>notesA = [], timestampMapA = [], lineTimestampsA = [], isRecordingA = True,
             recordingStartTimeA = 1000000\<rparr>"

text \<open>
  The offset-indexed editor with a line that was typed before the recording started.
\<close>

definition lateC :: editorC where
  "lateC = \<lparr>notesC = ''a'', timestampMapC = [], isRecordingC = True, recordingStartTimeC = 0\<rparr>"

text \<open>
  The offset-indexed editor after Enter on the empty first line and then \<open>x\<close> typed on
  the second line: the anchor of line 1 is stored under its start offset 1.
\<close>

definition shiftedC :: editorC where
  "shiftedC = \<lparr>notesC = ''\<newline>x'', timestampMapC = [(1, 3000)], isRecordingC = True,
                recordingStartTimeC = 0\<rparr>"

text \<open>
  The edits a user can make: a content change of a line, and a key pressed in a line.
\<close>

datatype edit = LineChange int nat string | KeyDown nat key nat

text \<open>
  A sequence of edits in the offset-indexed editor; it stops at the first failure.
\<close>

fun runC :: "edit list \<Rightarrow> editorC \<Rightarrow> error + editorC" where
  "runC [] st = Inr st"
| "runC (LineChange now index v # es) st = runC es (handleLineChangeC now index v st)"
| "runC (KeyDown index k cursorPos # es) st =
     (case handleKeyDownC index k cursorPos st of Inl e \<Rightarrow> Inl e | Inr st' \<Rightarrow> runC es st')"

text \<open>
  The offset-indexed editor at the start of a recording.
\<close>

definition startC :: editorC where
  "startC = \<lparr>notesC = [], timestampMapC = [], isRecordingC = True, recordingStartTimeC = 0\<rparr>"

text \<open>
  The lookup as the specification words it: of the stored anchors the one whose position is
  at the least absolute distance from the target, the first one among those at that
  distance, when the distance is below 20; nothing otherwise.
\<close>

definition nearestWithin :: "(nat, int) jsmap \<Rightarrow> nat \<Rightarrow> int option" where
  "nearestWithin tm index =
     (if tm = [] then None
      else let d = Min (set (map (\<lambda>(pos, time). nat \<bar>int pos - int index\<bar>) tm)) in
           if d < 20
           then map_option snd (find (\<lambda>(pos, time). nat \<bar>int pos - int index\<bar> = d) tm)
           else None)"

text \<open>
  One step of the scan of \<open>findNearestTimestamp\<close>, and the distance it computes.
\<close>

definition scanStep :: "nat \<Rightarrow> nat \<times> int \<Rightarrow> int option \<times> enat \<Rightarrow> int option \<times> enat" where
  "scanStep index = (\<lambda>(pos, time) (nearest, minDist).
                  let dist = nat \<bar>int pos - int index\<bar> in
                  if enat dist < minDist \<and> dist < 20 then (Some time, enat dist)
                  else (nearest, minDist))"

text \<open>
  \<open>Math.abs(pos - index)\<close> for an entry of the map.
\<close>

definition distTo :: "nat \<Rightarrow> nat \<times> int \<Rightarrow> nat" where
  "distTo index e = nat \<bar>int (fst e) - int index\<bar>"

text \<open>
  The anchors of the line-indexed editor have distinct keys, each the index of an existing
  line.
\<close>

definition anchorsInRange :: "editorA \<Rightarrow> bool" where
  "anchorsInRange st =
     (wfMap (lineTimestampsA st) \<and> list_all (\<lambda>(k, t). k < lineCountA st) (lineTimestampsA st))"

text \<open>
  One step of the effect that rebuilds \<open>lineTimestamps\<close> from the parent's map.
\<close>

definition syncStep :: "string list \<Rightarrow> nat \<times> int \<Rightarrow> (nat, int) jsmap \<Rightarrow> (nat, int) jsmap" where
  "syncStep lines = (\<lambda>(position, time) newLineTimestamps.
              case positionToLine position lines 0 0 of
                Some i \<Rightarrow> mapSet i time newLineTimestamps
              | None \<Rightarrow> newLineTimestamps)"

text \<open>
  A sequence of edits in the line-indexed editor. Every handler that completes changes
  \<open>notes\<close> or \<open>timestampMap\<close> in the parent, or leaves the state as it is, so the
  effect on \<open>[timestampMap, notes]\<close> follows it before the next edit; the run starts
  from a state in which the effect has run, and stops at the first failure.
\<close>

fun runA :: "edit list \<Rightarrow> editorA \<Rightarrow> error + editorA" where
  "runA [] st = Inr st"
| "runA (LineChange now index v # es) st =
     (case handleLineChangeA now index v st of
        Inl e \<Rightarrow> Inl e
      | Inr st' \<Rightarrow> runA es (syncFromParent st'))"
| "runA (KeyDown index k cursorPos # es) st =
     (case handleKeyDownA index k cursorPos st of
        Inl e \<Rightarrow> Inl e
      | Inr st' \<Rightarrow> runA es (syncFromParent st'))"

text \<open>
  The line-indexed editor after \<open>a\<close>, Enter, \<open>b\<close>, Enter, \<open>c\<close> typed 3, 6 and 9
  seconds into the recording.
\<close>

definition abcA :: editorA where
  "abcA = \<lparr>notesA = ''a\<newline>b\<newline>c'', timestampMapA = [(0, 4000), (4, 7000)],
           lineTimestampsA = [(0, 4000), (1, 7000)], isRecordingA = True,
           recordingStartTimeA = 1000000\<rparr>"

section \<open>Auxiliary facts\<close>

lemma mapSet_fresh: "k \<notin> fst ` set m \<Longrightarrow> mapSet k v m = m @ [(k, v)]"
  by (induction m) auto

lemma fold_mapSet_inj:
  "inj_on h (fst ` set m) \<Longrightarrow> distinct (map fst m) \<Longrightarrow> h ` fst ` set m \<inter> fst ` set acc = {} \<Longrightarrow>
   fold (\<lambda>(k, t) a. mapSet (h k) t a) m acc = acc @ map (\<lambda>(k, t). (h k, t)) m"
proof (induction m arbitrary: acc)
  case Nil
  then show ?case by simp
next
  case (Cons e m)
  obtain k t where e: "e = (k, t)" by (cases e)
  have fresh: "h k \<notin> fst ` set acc" using Cons.prems(3) e by auto
  have inj: "inj_on h (fst ` set m)" using Cons.prems(1) by (auto simp: inj_on_def)
  have dis: "distinct (map fst m)" using Cons.prems(2) by simp
  have "h k \<notin> h ` fst ` set m"
  proof
    assume "h k \<in> h ` fst ` set m"
    then obtain k' where k': "k' \<in> fst ` set m" "h k = h k'" by auto
    with Cons.prems(1) e have "k = k'" by (auto simp: inj_on_def)
    with k' Cons.prems(2) e show False by auto
  qed
  then have disj: "h ` fst ` set m \<inter> fst ` set (acc @ [(h k, t)]) = {}"
    using Cons.prems(3) by auto
  show ?case
    using Cons.IH [OF inj dis disj] mapSet_fresh [OF fresh] e by simp
qed

lemma insertShift_eq:
  assumes "wfMap m"
  shows "insertShift i m = map (\<lambda>(k, t). (if k < i + 1 then k else k + 1, t)) m"
proof -
  have inj: "inj_on (\<lambda>k. if k < i + 1 then k else k + 1) (fst ` set m)"
    by (auto simp: inj_on_def split: if_splits)
  have "insertShift i m = fold (\<lambda>(k, t) a. mapSet (if k < i + 1 then k else k + 1) t a) m []"
    unfolding insertShift_def by (rule arg_cong [where f = "\<lambda>f. fold f m []"]) (auto simp: fun_eq_iff)
  also have "\<dots> = [] @ map (\<lambda>(k, t). (if k < i + 1 then k else k + 1, t)) m"
    using assms by (intro fold_mapSet_inj [OF inj]) (auto simp: wfMap_def)
  finally show ?thesis by simp
qed

lemma removeShift_filter:
  "removeShift i m = fold (\<lambda>(k, t) a. mapSet (if k < i then k else k - 1) t a) (filter (\<lambda>(k, t). k \<noteq> i) m) []"
proof -
  have "fold (\<lambda>(lineIndex, time) a.
             if lineIndex < i then mapSet lineIndex time a
             else if lineIndex > i then mapSet (lineIndex - 1) time a
             else a) m acc
      = fold (\<lambda>(k, t) a. mapSet (if k < i then k else k - 1) t a) (filter (\<lambda>(k, t). k \<noteq> i) m) acc" for acc
    by (induction m arbitrary: acc) (auto split: if_splits)
  then show ?thesis unfolding removeShift_def by simp
qed

lemma removeShift_eq:
  assumes "wfMap m"
  shows "removeShift i m = map (\<lambda>(k, t). (if k < i then k else k - 1, t)) (filter (\<lambda>(k, t). k \<noteq> i) m)"
proof -
  let ?m = "filter (\<lambda>(k, t). k \<noteq> i) m"
  have inj: "inj_on (\<lambda>k. if k < i then k else k - 1) (fst ` set ?m)"
    by (auto simp: inj_on_def split: if_splits)
  have dis: "distinct (map fst ?m)"
    using assms by (simp add: wfMap_def distinct_map_filter)
  have "removeShift i m = [] @ map (\<lambda>(k, t). (if k < i then k else k - 1, t)) ?m"
    unfolding removeShift_filter by (intro fold_mapSet_inj [OF inj dis]) auto
  then show ?thesis by simp
qed

lemma splitNl_nonempty: "splitNl s \<noteq> []"
  by (induction s) (auto split: list.splits)

lemma splitNl_no_newline: "l \<in> set (splitNl s) \<Longrightarrow> newline \<notin> set l"
proof (induction s arbitrary: l)
  case Nil
  then show ?case by simp
next
  case (Cons c cs)
  then show ?case
    by (cases "splitNl cs") (auto split: if_splits simp: splitNl_nonempty)
qed

lemma joinNl_Cons: "ls \<noteq> [] \<Longrightarrow> joinNl (l # ls) = l @ newline # joinNl ls"
  by (cases ls) auto

lemma joinNl_splitNl: "joinNl (splitNl s) = s"
proof (induction s)
  case Nil
  then show ?case by simp
next
  case (Cons c cs)
  show ?case
  proof (cases "splitNl cs")
    case Nil
    then show ?thesis using splitNl_nonempty by blast
  next
    case (Cons l ls)
    with Cons.IH show ?thesis
      by (cases ls) (auto simp: joinNl_Cons splitNl_nonempty)
  qed
qed

lemma splitNl_append_line:
  "newline \<notin> set l \<Longrightarrow> splitNl (l @ newline # s) = l # splitNl s"
  by (induction l) (auto split: list.splits)

lemma splitNl_line: "newline \<notin> set l \<Longrightarrow> splitNl l = [l]"
  by (induction l) (auto split: list.splits)

lemma splitNl_joinNl:
  "xs \<noteq> [] \<Longrightarrow> \<forall>l \<in> set xs. newline \<notin> set l \<Longrightarrow> splitNl (joinNl xs) = xs"
proof (induction xs rule: joinNl.induct)
  case 1
  then show ?case by simp
next
  case (2 l)
  then show ?case by (simp add: splitNl_line)
next
  case (3 l v va)
  then show ?case by (simp add: splitNl_append_line)
qed

lemma wfMap_insertShift_image:
  fixes m :: "(nat, int) jsmap"
  assumes "wfMap m"
  shows "wfMap (map (\<lambda>(k, t). (if k < i + 1 then k else k + 1, t)) m)"
proof -
  have "map fst (map (\<lambda>(k, t). (if k < i + 1 then k else k + 1, t)) m)
        = map (\<lambda>k. if k < i + 1 then k else k + 1) (map fst m)"
    by (induction m) auto
  moreover have "inj_on (\<lambda>k. if k < i + 1 then k else k + 1) (set (map fst m))"
    by (auto simp: inj_on_def split: if_splits)
  ultimately show ?thesis
    using assms unfolding wfMap_def by (simp only: distinct_map)
qed

lemma removeShift_insertShift:
  assumes "wfMap m"
  shows "removeShift (i + 1) (insertShift i m) = m"
proof -
  let ?up = "\<lambda>(k::nat, t::int). (if k < i + 1 then k else k + 1, t)"
  have wf': "wfMap (map ?up m)" by (rule wfMap_insertShift_image [OF assms])
  have keep: "filter (\<lambda>(k, t). k \<noteq> i + 1) (map ?up m) = map ?up m"
    by (induction m) (auto split: if_splits)
  have undo: "map (\<lambda>(k, t). (if k < i + 1 then k else k - 1, t)) (map ?up m) = m"
    by (induction m) (auto split: if_splits)
  show ?thesis
    by (simp only: insertShift_eq [OF assms] removeShift_eq [OF wf'] keep undo)
qed

lemma split_shape:
  "index < length lines \<Longrightarrow>
   spliceInsert (arraySet lines index a) (index + 1) b
     = take index lines @ a # b # drop (index + 1) lines"
  by (simp add: spliceInsert_def arraySet_def upd_conv_take_nth_drop)

lemma split_newline_free:
  assumes "\<forall>l \<in> set lines. newline \<notin> set l" and "index < length lines"
  shows "\<forall>l \<in> set (take index lines @ take c (lines ! index) # drop c (lines ! index)
                      # drop (index + 1) lines). newline \<notin> set l"
proof -
  have cur: "newline \<notin> set (lines ! index)" using assms by simp
  have a: "newline \<notin> set (take c (lines ! index))" using cur by (auto dest: in_set_takeD)
  have b: "newline \<notin> set (drop c (lines ! index))" using cur by (auto dest: in_set_dropD)
  show ?thesis
    using assms(1) a b by (auto dest!: in_set_takeD in_set_dropD)
qed

lemma handleKeyDownA_Enter:
  assumes "splitNl (notesA s) = L" and "index < length L"
  shows "handleKeyDownA index Enter c s =
           Inr (s\<lparr>lineTimestampsA := insertShift index (lineTimestampsA s),
                   notesA := joinNl (take index L @ take c (L ! index) # drop c (L ! index)
                                       # drop (index + 1) L),
                   timestampMapA :=
                     syncToParentTimestampMap
                       (take index L @ take c (L ! index) # drop c (L ! index) # drop (index + 1) L)
                       (insertShift index (lineTimestampsA s))\<rparr>)"
  using assms split_shape [OF assms(2), of "take c (L ! index)" "drop c (L ! index)"]
  by (simp add: handleKeyDownA_def Let_def)

lemma handleKeyDownA_Backspace:
  assumes "splitNl (notesA s) = L" and "k < length L"
  shows "handleKeyDownA (k + 1) Backspace 0 s =
           Inr (s\<lparr>lineTimestampsA := removeShift (k + 1) (lineTimestampsA s),
                   notesA := joinNl (spliceRemove
                                       (arraySet L k (L ! k @ (if k + 1 < length L then L ! (k + 1)
                                                               else ''undefined'')))
                                       (k + 1)),
                   timestampMapA :=
                     syncToParentTimestampMap
                       (spliceRemove
                          (arraySet L k (L ! k @ (if k + 1 < length L then L ! (k + 1)
                                                  else ''undefined'')))
                          (k + 1))
                       (removeShift (k + 1) (lineTimestampsA s))\<rparr>)"
  using assms by (simp add: handleKeyDownA_def Let_def)

lemma lineStartPos_Cons:
  "0 < k \<Longrightarrow> k < length ls \<Longrightarrow> lineStartPos (l # ls) (Suc k) = length l + 1 + lineStartPos ls k"
  by (cases ls; cases k) (auto simp: lineStartPos_def)

lemma positionToLine_lineStartPos:
  "0 < k \<Longrightarrow> k < length lines \<Longrightarrow>
   positionToLine (cur + lineStartPos lines k) lines i cur = Some (i + k - 1)"
proof (induction lines arbitrary: k i cur)
  case Nil
  then show ?case by simp
next
  case (Cons l ls)
  obtain k' where k: "k = Suc k'" using Cons.prems(1) by (cases k) auto
  show ?case
  proof (cases "k' = 0")
    case True
    then show ?thesis using k by (simp add: lineStartPos_def)
  next
    case False
    then have k'pos: "0 < k'" and k'len: "k' < length ls" using Cons.prems k by auto
    have "positionToLine (cur + length l + 1 + lineStartPos ls k') ls (i + 1) (cur + length l + 1)
          = Some (i + 1 + k' - 1)"
      using Cons.IH [OF k'pos k'len, of "cur + length l + 1" "i + 1"] by (simp add: add.assoc)
    moreover have "0 < lineStartPos ls k'" using k'pos by (simp add: lineStartPos_def)
    ultimately show ?thesis
      using k lineStartPos_Cons [OF k'pos k'len, of l] by (simp add: add.assoc)
  qed
qed

lemma round_trip_previous_line:
  "0 < k \<Longrightarrow> k < length lines \<Longrightarrow> positionToLine (lineStartPos lines k) lines 0 0 = Some (k - 1)"
  using positionToLine_lineStartPos [of k lines 0 0] by simp

lemma mapSet_times: "e \<in> set (mapSet k v a) \<Longrightarrow> snd e = v \<or> e \<in> set a"
  by (induction a) (auto split: if_splits)

lemma removeShift_times:
  assumes "e \<in> set (removeShift i m)"
  shows "snd e \<in> snd ` set m"
proof -
  have "e \<in> set (fold (\<lambda>(lineIndex, time) a.
             if lineIndex < i then mapSet lineIndex time a
             else if lineIndex > i then mapSet (lineIndex - 1) time a
             else a) m acc) \<Longrightarrow> snd e \<in> snd ` set m \<or> e \<in> set acc" for acc
  proof (induction m arbitrary: acc)
    case Nil
    then show ?case by simp
  next
    case (Cons x m)
    obtain k t where x: "x = (k, t)" by (cases x)
    consider "k < i" | "i < k" | "k = i" by linarith
    then show ?case
    proof cases
      case 1
      then have "snd e \<in> snd ` set m \<or> e \<in> set (mapSet k t acc)"
        using Cons.prems x by (intro Cons.IH) simp
      then show ?thesis using mapSet_times [of e k t acc] x by force
    next
      case 2
      then have "snd e \<in> snd ` set m \<or> e \<in> set (mapSet (k - 1) t acc)"
        using Cons.prems x by (intro Cons.IH) simp
      then show ?thesis using mapSet_times [of e "k - 1" t acc] x by force
    next
      case 3
      then have "snd e \<in> snd ` set m \<or> e \<in> set acc"
        using Cons.prems x by (intro Cons.IH) simp
      then show ?thesis by auto
    qed
  qed
  from this [of "[]"] assms show ?thesis by (simp add: removeShift_def)
qed

lemma mapGet_mapSet: "mapGet (mapSet k v m) j = (if j = k then Some v else mapGet m j)"
  by (induction m) (auto simp: mapGet_def)

lemma handleLineChangeA_anchors:
  assumes "handleLineChangeA now index v st = Inr st'"
  shows "(v = [] \<and> 1 < lineCountA st \<and> lineTimestampsA st' = removeShift index (lineTimestampsA st))
       \<or> (\<not> (v = [] \<and> 1 < lineCountA st) \<and> isRecordingA st \<and> index < lineCountA st
            \<and> trim (splitNl (notesA st) ! index) = [] \<and> trim v \<noteq> []
            \<and> \<not> mapHas (lineTimestampsA st) index
            \<and> lineTimestampsA st' =
                mapSet index (adjustedDuration now (recordingStartTimeA st)) (lineTimestampsA st))
       \<or> (\<not> (v = [] \<and> 1 < lineCountA st)
            \<and> \<not> (isRecordingA st \<and> index < lineCountA st
                    \<and> trim (splitNl (notesA st) ! index) = [] \<and> trim v \<noteq> []
                    \<and> \<not> mapHas (lineTimestampsA st) index)
            \<and> lineTimestampsA st' = lineTimestampsA st)"
proof (cases "v = [] \<and> 1 < lineCountA st")
  case True
  then show ?thesis
    using assms by (auto simp: handleLineChangeA_def Let_def lineCountA_def)
next
  case False
  show ?thesis
  proof (cases "isRecordingA st")
    case rec: True
    show ?thesis
    proof (cases "index < lineCountA st")
      case True
      then show ?thesis
        using assms False rec
        by (auto simp: handleLineChangeA_def Let_def lineCountA_def split: if_splits)
    next
      case False
      then show ?thesis
        using assms \<open>\<not> (v = [] \<and> 1 < lineCountA st)\<close> rec
        by (simp add: handleLineChangeA_def Let_def lineCountA_def split: if_splits)
    qed
  next
    case norec: False
    then show ?thesis
      using assms False
      by (auto simp: handleLineChangeA_def Let_def lineCountA_def split: if_splits)
  qed
qed

lemma handleLineChangeA_returns:
  "index < lineCountA st \<Longrightarrow> \<exists>st'. handleLineChangeA now index v st = Inr st'"
  by (auto simp: handleLineChangeA_def Let_def lineCountA_def)

lemma insertShift_times:
  assumes "e \<in> set (insertShift i m)"
  shows "snd e \<in> snd ` set m"
proof -
  have "e \<in> set (fold (\<lambda>(lineIndex, time) a.
             if lineIndex < i + 1 then mapSet lineIndex time a
             else mapSet (lineIndex + 1) time a) m acc)
        \<Longrightarrow> snd e \<in> snd ` set m \<or> e \<in> set acc" for acc
  proof (induction m arbitrary: acc)
    case Nil
    then show ?case by simp
  next
    case (Cons x m)
    obtain k t where x: "x = (k, t)" by (cases x)
    show ?case
    proof (cases "k < i + 1")
      case True
      then have "snd e \<in> snd ` set m \<or> e \<in> set (mapSet k t acc)"
        using Cons.prems x by (intro Cons.IH) simp
      then show ?thesis using mapSet_times [of e k t acc] x by force
    next
      case False
      then have "snd e \<in> snd ` set m \<or> e \<in> set (mapSet (k + 1) t acc)"
        using Cons.prems x by (intro Cons.IH) simp
      then show ?thesis using mapSet_times [of e "k + 1" t acc] x by force
    qed
  qed
  from this [of "[]"] assms show ?thesis by (simp add: insertShift_def)
qed

lemma handleKeyDownA_anchors:
  assumes "handleKeyDownA index k cursorPos st = Inr st'"
  shows "lineTimestampsA st' = insertShift index (lineTimestampsA st)
       \<or> lineTimestampsA st' = removeShift index (lineTimestampsA st)
       \<or> lineTimestampsA st' = lineTimestampsA st"
  using assms
  by (auto simp: handleKeyDownA_def Let_def split: if_splits option.splits)

lemma split_renumbers_line_editor:
  assumes wf: "wfMap (lineTimestampsA st)" and idx: "index < lineCountA st"
  shows "\<exists>st'. handleKeyDownA index Enter cursorPos st = Inr st'
           \<and> lineTimestampsA st' =
               map (\<lambda>(j, t). (if j < index + 1 then j else j + 1, t)) (lineTimestampsA st)
           \<and> \<not> mapHas (lineTimestampsA st') (index + 1)"
proof -
  have idx': "index < length (splitNl (notesA st))" using idx by (simp add: lineCountA_def)
  have "map_of (map (\<lambda>(j, t). (if j < index + 1 then j else j + 1, t)) m) (index + 1) = None"
    for m :: "(nat, int) jsmap"
    by (induction m) (auto split: if_splits)
  then show ?thesis
    unfolding handleKeyDownA_Enter [OF refl idx']
    by (simp add: insertShift_eq [OF wf] mapHas_def)
qed

lemma length_mapSet_fresh: "\<not> mapHas m k \<Longrightarrow> length (mapSet k v m) = length m + 1"
  by (induction m) (auto simp: mapHas_def split: if_splits)

lemma length_removeShift: "length (removeShift i m) \<le> length m"
proof -
  have len_set: "length (mapSet k v a) \<le> length a + 1" for k :: nat and v :: int and a
    by (induction a) auto
  have "length (fold (\<lambda>(lineIndex, time) a.
             if lineIndex < i then mapSet lineIndex time a
             else if lineIndex > i then mapSet (lineIndex - 1) time a
             else a) m acc) \<le> length m + length acc" for acc
  proof (induction m arbitrary: acc)
    case Nil
    then show ?case by simp
  next
    case (Cons x m)
    obtain k t where x: "x = (k, t)" by (cases x)
    show ?case
      using Cons.IH [of "mapSet k t acc"] Cons.IH [of "mapSet (k - 1) t acc"] Cons.IH [of acc]
        len_set [of k t acc] len_set [of "k - 1" t acc] x
      by (auto split: if_splits)
  qed
  from this [of "[]"] show ?thesis by (simp add: removeShift_def)
qed

lemma line_editor_creates_iff:
  assumes ok: "handleLineChangeA now index v st = Inr st'" and idx: "index < lineCountA st"
  shows "length (lineTimestampsA st') = length (lineTimestampsA st) + 1
         \<longleftrightarrow> (isRecordingA st \<and> trim (splitNl (notesA st) ! index) = [] \<and> trim v \<noteq> []
               \<and> \<not> mapHas (lineTimestampsA st) index)"
  using handleLineChangeA_anchors [OF ok] idx length_removeShift [of index "lineTimestampsA st"]
    length_mapSet_fresh [of "lineTimestampsA st" index "adjustedDuration now (recordingStartTimeA st)"]
  by (elim disjE conjE) (auto simp: trim_def)

lemma find_snoc:
  "find P (xs @ [x]) = (case find P xs of Some a \<Rightarrow> Some a | None \<Rightarrow> if P x then Some x else None)"
  by (induction xs) auto

lemma Min_snoc:
  "xs \<noteq> [] \<Longrightarrow> Min (set (map f (xs @ [x]))) = min (f x) (Min (set (map f xs)))"
  for f :: "'a \<Rightarrow> nat"
  by (simp add: Min_insert)

lemma find_Min_found:
  fixes f :: "'a \<Rightarrow> nat"
  assumes "xs \<noteq> []"
  shows "\<exists>a. find (\<lambda>e. f e = Min (set (map f xs))) xs = Some a"
proof -
  have "Min (set (map f xs)) \<in> set (map f xs)"
    using assms by (intro Min_in) auto
  then obtain e where "e \<in> set xs" "f e = Min (set (map f xs))" by auto
  then have "find (\<lambda>e. f e = Min (set (map f xs))) xs \<noteq> None"
    by (auto simp: find_None_iff)
  then show ?thesis by auto
qed

lemma find_none_below:
  fixes f :: "'a \<Rightarrow> nat"
  assumes "m < Min (set (map f xs))"
  shows "find (\<lambda>e. f e = m) xs = None"
proof -
  have "f e \<noteq> m" if "e \<in> set xs" for e
  proof -
    have "Min (set (map f xs)) \<le> f e" using that by (intro Min_le) auto
    then show ?thesis using assms by simp
  qed
  then show ?thesis by (auto simp: find_None_iff)
qed

lemma scanStep_eq:
  "scanStep index e (n, md) =
     (if enat (distTo index e) < md \<and> distTo index e < 20 then (Some (snd e), enat (distTo index e))
      else (n, md))"
  by (cases e) (simp add: scanStep_def distTo_def Let_def)

lemma nearestWithin_eq:
  "nearestWithin ys index =
     (if ys = [] then None
      else if Min (set (map (distTo index) ys)) < 20
           then map_option snd (find (\<lambda>e. distTo index e = Min (set (map (distTo index) ys))) ys)
           else None)"
proof -
  have "(\<lambda>(pos, time). nat \<bar>int pos - int index\<bar>) = distTo index"
    by (auto simp: distTo_def fun_eq_iff)
  moreover have "(\<lambda>(pos, time). nat \<bar>int pos - int index\<bar> = d) = (\<lambda>e. distTo index e = d)" for d
    by (auto simp: distTo_def fun_eq_iff)
  ultimately show ?thesis
    by (simp only: nearestWithin_def Let_def)
qed

lemma findNearest_scan:
  "fold (scanStep index) tm (None, \<infinity>)
     = (nearestWithin tm index,
        if tm \<noteq> [] \<and> Min (set (map (distTo index) tm)) < 20
        then enat (Min (set (map (distTo index) tm))) else \<infinity>)"
proof (induction tm rule: rev_induct)
  case Nil
  then show ?case by (simp add: nearestWithin_def)
next
  case (snoc x xs)
  let ?d = "distTo index x"
  have unfold: "fold (scanStep index) (xs @ [x]) (None, \<infinity>)
                = scanStep index x (fold (scanStep index) xs (None, \<infinity>))"
    by simp
  show ?case
  proof (cases "xs = []")
    case True
    have "find (\<lambda>e. distTo index e = ?d) [x] = Some x" by simp
    then show ?thesis
      unfolding unfold using True
      by (simp add: scanStep_eq nearestWithin_eq)
  next
    case False
    let ?m = "Min (set (map (distTo index) xs))"
    have Min': "Min (set (map (distTo index) (xs @ [x]))) = min ?d ?m"
      by (rule Min_snoc [OF False])
    have ne: "xs @ [x] \<noteq> []" by simp
    obtain a where found: "find (\<lambda>e. distTo index e = ?m) xs = Some a"
      using find_Min_found [OF False, of "distTo index"] by blast
    have IH: "fold (scanStep index) xs (None, \<infinity>)
              = (nearestWithin xs index, if ?m < 20 then enat ?m else \<infinity>)"
      using snoc.IH False by simp
    have specxs: "nearestWithin xs index = (if ?m < 20 then Some (snd a) else None)"
      using False found by (simp add: nearestWithin_eq)
    show ?thesis
    proof (cases "?d < ?m")
      case True
      have none: "find (\<lambda>e. distTo index e = ?d) xs = None"
        by (rule find_none_below [OF True])
      have mineq: "min ?d ?m = ?d" using True by simp
      have rhs1: "nearestWithin (xs @ [x]) index = (if ?d < 20 then Some (snd x) else None)"
        unfolding nearestWithin_eq [of "xs @ [x]"] Min' mineq
        using none by (simp add: find_snoc)
      have lhs: "scanStep index x (nearestWithin xs index, if ?m < 20 then enat ?m else \<infinity>)
                 = (if ?d < 20 then (Some (snd x), enat ?d) else (None, \<infinity>))"
        using True by (simp add: scanStep_eq specxs)
      show ?thesis
        unfolding unfold IH lhs rhs1 using ne by (simp only: Min' mineq) simp
    next
      case False
      have mineq: "min ?d ?m = ?m" using False by simp
      have rhs1: "nearestWithin (xs @ [x]) index = nearestWithin xs index"
        unfolding nearestWithin_eq [of "xs @ [x]"] Min' mineq specxs
        using found by (simp add: find_snoc)
      have lhs: "scanStep index x (nearestWithin xs index, if ?m < 20 then enat ?m else \<infinity>)
                 = (nearestWithin xs index, if ?m < 20 then enat ?m else \<infinity>)"
        using False by (simp add: scanStep_eq)
      show ?thesis
        unfolding unfold IH lhs rhs1 using ne by (simp only: Min' mineq) simp
    qed
  qed
qed

lemma isDigit_digitChar: "d < 10 \<Longrightarrow> isDigit (digitChar d)"
  unfolding isDigit_def digitChar_def by (rule nth_mem) simp

lemma natToString_two_digits:
  assumes "n < 100"
  shows "padStart2 (natToString n) = [digitChar (n div 10), digitChar (n mod 10)]"
proof (cases "n < 10")
  case True
  then show ?thesis
    by (simp add: natToString.simps [of n] padStart2_def digitChar_def)
next
  case False
  then have "n div 10 < 10" using assms by simp
  then show ?thesis
    using False by (simp add: natToString.simps [of n] natToString.simps [of "n div 10"] padStart2_def)
qed

lemma numberToString_two_digits:
  assumes "0 \<le> k" and "k < 100"
  shows "\<exists>a b. padStart2 (numberToString k) = [a, b] \<and> isDigit a \<and> isDigit b"
proof -
  have n: "nat k < 100" using assms by simp
  have "padStart2 (numberToString k) = [digitChar (nat k div 10), digitChar (nat k mod 10)]"
    using assms(1) natToString_two_digits [OF n] by (simp add: numberToString_def)
  moreover have "nat k div 10 < 10" using n by simp
  moreover have "nat k mod 10 < 10" by simp
  ultimately show ?thesis using isDigit_digitChar by blast
qed

lemma formatTime_shape:
  assumes "0 \<le> ms" and "ms < 360000000"
  shows "\<exists>a b c d e f. formatTime ms = [a, b, CHR '':'', c, d, CHR '':'', e, f]
           \<and> isDigit a \<and> isDigit b \<and> isDigit c \<and> isDigit d \<and> isDigit e \<and> isDigit f"
proof -
  define ts where "ts = ms div 1000"
  have ts: "0 \<le> ts" "ts < 360000" using assms by (auto simp: ts_def)
  have sm: "ts smod 3600 = ts mod 3600" "ts smod 60 = ts mod 60"
    using ts(1) by (auto simp: signed_modulo_int_def sgn_if)
  have h: "0 \<le> ts div 3600" "ts div 3600 < 100" using ts by auto
  have m: "0 \<le> (ts mod 3600) div 60" "(ts mod 3600) div 60 < 100"
    using ts by (auto intro: order_le_less_trans [OF zdiv_mono1 [of "ts mod 3600" 3599 60]])
  have s: "0 \<le> ts mod 60" "ts mod 60 < 100"
    by (auto intro: less_trans [OF pos_mod_bound [of 60 ts]])
  obtain a b where ab: "padStart2 (numberToString (ts div 3600)) = [a, b]" "isDigit a" "isDigit b"
    using numberToString_two_digits [OF h] by blast
  obtain c d where cd: "padStart2 (numberToString ((ts mod 3600) div 60)) = [c, d]" "isDigit c" "isDigit d"
    using numberToString_two_digits [OF m] by blast
  obtain e f where ef: "padStart2 (numberToString (ts mod 60)) = [e, f]" "isDigit e" "isDigit f"
    using numberToString_two_digits [OF s] by blast
  have "formatTime ms = [a, b, CHR '':'', c, d, CHR '':'', e, f]"
    by (simp add: formatTime_def Let_def ts_def [symmetric] sm ab cd ef)
  then show ?thesis using ab cd ef by blast
qed

lemma marker_matches:
  assumes "0 \<le> ms" and "ms < 360000000"
  shows "matchTimestamp (timestampMarker ms @ post) = Some (dropWhile isSpace post)"
proof -
  obtain a b c d e f where shape: "formatTime ms = [a, b, CHR '':'', c, d, CHR '':'', e, f]"
    and dig: "isDigit a" "isDigit b" "isDigit c" "isDigit d" "isDigit e" "isDigit f"
    using formatTime_shape [OF assms] by blast
  show ?thesis
    using dig
    by (simp add: timestampMarker_def shape matchTimestamp_def matchCore_def isColon_def
          matchClose_def isSpace_def)
qed

lemma removeTimestamps_length: "length (removeTimestamps s) \<le> length s"
proof (induction s rule: removeTimestamps.induct)
  case 1
  then show ?case by simp
next
  case (2 c cs)
  show ?case
  proof (cases "matchTimestamp (c # cs)")
    case None
    then show ?thesis using 2(1) [OF None] by simp
  next
    case (Some r)
    then show ?thesis
      using 2(2) [OF Some] matchTimestamp_shorter [OF Some] by simp
  qed
qed

lemma unchanged_no_match:
  assumes "removeTimestamps (c # cs) = c # cs"
  shows "matchTimestamp (c # cs) = None \<and> removeTimestamps cs = cs"
proof (cases "matchTimestamp (c # cs)")
  case None
  then show ?thesis using assms by simp
next
  case (Some r)
  then have "removeTimestamps r = c # cs" using assms by simp
  then have "length (c # cs) \<le> length r"
    using removeTimestamps_length [of r] by simp
  then show ?thesis using matchTimestamp_shorter [OF Some] by simp
qed

lemma matchSeq_before_bracket:
  "\<forall>p \<in> set ps. \<not> p CHR ''['' \<Longrightarrow> matchSeq ps s = None \<Longrightarrow>
   matchSeq ps (s @ CHR ''['' # t) = None"
  by (induction ps s rule: matchSeq.induct) (auto split: if_splits)

lemma matchCore_before_bracket:
  "matchCore s = None \<Longrightarrow> matchCore (s @ CHR ''['' # t) = None"
  unfolding matchCore_def
  by (rule matchSeq_before_bracket) (simp_all add: isDigit_def isColon_def)

lemma matchTimestamp_before_bracket:
  assumes "matchTimestamp (c # cs) = None"
  shows "matchTimestamp ((c # cs) @ CHR ''['' # t) = None"
proof -
  have whole: "matchCore (c # cs) = None"
    using assms by (auto simp: matchTimestamp_def split: option.splits if_splits)
  have inner: "c = CHR ''['' \<Longrightarrow> matchCore cs = None"
    using assms by (auto simp: matchTimestamp_def split: option.splits if_splits)
  show ?thesis
    using matchCore_before_bracket [OF whole, of t] matchCore_before_bracket [of cs t] inner
    by (auto simp: matchTimestamp_def split: option.splits)
qed

lemma removeTimestamps_prefix:
  "removeTimestamps pre = pre \<Longrightarrow>
   removeTimestamps (pre @ CHR ''['' # t) = pre @ removeTimestamps (CHR ''['' # t)"
proof (induction pre)
  case Nil
  then show ?case by simp
next
  case (Cons c cs)
  have nm: "matchTimestamp (c # cs) = None" and rest: "removeTimestamps cs = cs"
    using unchanged_no_match [OF Cons.prems] by simp_all
  have "matchTimestamp (c # cs @ CHR ''['' # t) = None"
    using matchTimestamp_before_bracket [OF nm, of t] by simp
  then show ?case using Cons.IH [OF rest] by simp
qed

lemma formatTime_15000: "formatTime 15000 = ''00:00:15''"
  by code_simp

lemma keys_mapSet_list:
  "map fst (mapSet k v m) = (if k \<in> set (map fst m) then map fst m else map fst m @ [k])"
  by (induction m) force+

lemma wfMap_mapSet: "wfMap m \<Longrightarrow> wfMap (mapSet k v m)"
  unfolding wfMap_def keys_mapSet_list by simp

lemma keys_mapSet: "set (map fst (mapSet k v m)) = insert k (set (map fst m))"
  unfolding keys_mapSet_list by auto

lemma anchors_count:
  assumes "wfMap m" and "\<forall>k \<in> set (map fst m). k < n"
  shows "length m \<le> n"
proof -
  have "length m = card (set (map fst m))"
    using assms(1) distinct_card [of "map fst m"] by (simp add: wfMap_def)
  also have "\<dots> \<le> card {..<n}"
    using assms(2) by (intro card_mono) auto
  finally show ?thesis by simp
qed

lemma length_splitNl_append:
  "length (splitNl (a @ newline # b)) = length (splitNl a) + length (splitNl b)"
  by (induction a) (auto split: list.splits simp: splitNl_nonempty)

lemma lineCount_joinNl: "xs \<noteq> [] \<Longrightarrow> length xs \<le> length (splitNl (joinNl xs))"
proof (induction xs rule: joinNl.induct)
  case 1
  then show ?case by simp
next
  case (2 l)
  then show ?case by (cases "splitNl l") (auto simp: splitNl_nonempty)
next
  case (3 l v va)
  have "1 \<le> length (splitNl l)" by (cases "splitNl l") (auto simp: splitNl_nonempty)
  then show ?case using 3 by (simp add: length_splitNl_append)
qed

lemma anchorsInRange_iff:
  "anchorsInRange st \<longleftrightarrow>
     wfMap (lineTimestampsA st) \<and> (\<forall>k \<in> set (map fst (lineTimestampsA st)). k < lineCountA st)"
  by (auto simp: anchorsInRange_def list_all_iff)

lemma wfMap_fold:
  assumes "\<And>e a. wfMap a \<Longrightarrow> wfMap (g e a)" and "wfMap acc"
  shows "wfMap (fold g m acc)"
  using assms(2) by (induction m arbitrary: acc) (auto intro: assms(1))

lemma wfMap_removeShift: "wfMap (removeShift i m)"
  unfolding removeShift_def
  by (rule wfMap_fold) (auto simp: wfMap_mapSet, simp add: wfMap_def)

lemma wfMap_insertShift: "wfMap (insertShift i m)"
  unfolding insertShift_def
  by (rule wfMap_fold) (auto simp: wfMap_mapSet, simp add: wfMap_def)

lemma keys_removeShift:
  assumes "wfMap m" and "k' \<in> set (map fst (removeShift i m))"
  shows "\<exists>k \<in> set (map fst m). k \<noteq> i \<and> k' = (if k < i then k else k - 1)"
  using assms(2) unfolding removeShift_eq [OF assms(1)] by force

lemma keys_insertShift:
  assumes "wfMap m" and "k' \<in> set (map fst (insertShift i m))"
  shows "\<exists>k \<in> set (map fst m). k' = (if k < i + 1 then k else k + 1)"
  using assms(2) unfolding insertShift_eq [OF assms(1)] by force

lemma lineCount_spliceRemove:
  assumes "1 < length (splitNl s)"
  shows "length (splitNl (joinNl (spliceRemove (splitNl s) index)))
         = (if index < length (splitNl s) then length (splitNl s) - 1 else length (splitNl s))"
proof -
  let ?L = "spliceRemove (splitNl s) index"
  have len: "length ?L = (if index < length (splitNl s) then length (splitNl s) - 1 else length (splitNl s))"
    by (auto simp: spliceRemove_def)
  then have "0 < length ?L" using assms by (simp add: splitNl_nonempty split: if_splits)
  then have ne: "?L \<noteq> []" by blast
  have nf: "\<forall>l \<in> set ?L. newline \<notin> set l"
    by (auto simp: spliceRemove_def dest!: in_set_takeD in_set_dropD splitNl_no_newline)
  show ?thesis using splitNl_joinNl [OF ne nf] len by simp
qed

lemma lineCount_arraySet:
  "length lines \<le> length (splitNl (joinNl (arraySet lines index v)))"
proof -
  have "length lines \<le> length (arraySet lines index v)" by (simp add: arraySet_def)
  moreover have "arraySet lines index v \<noteq> []" by (auto simp: arraySet_def)
  ultimately show ?thesis
    using lineCount_joinNl [of "arraySet lines index v"] by linarith
qed

lemma handleLineChangeA_notes:
  assumes "handleLineChangeA now index v st = Inr st'"
  shows "notesA st' = (if v = [] \<and> 1 < lineCountA st
                       then joinNl (spliceRemove (splitNl (notesA st)) index)
                       else joinNl (arraySet (splitNl (notesA st)) index v))"
  using assms
  by (auto simp: handleLineChangeA_def Let_def lineCountA_def split: if_splits option.splits)

lemma handleLineChangeA_keeps_range:
  assumes inv: "anchorsInRange st" and ok: "handleLineChangeA now index v st = Inr st'"
  shows "anchorsInRange st'"
proof -
  have wf: "wfMap (lineTimestampsA st)"
    and rng: "\<forall>k \<in> set (map fst (lineTimestampsA st)). k < lineCountA st"
    using inv by (simp_all add: anchorsInRange_iff)
  let ?n = "lineCountA st"
  show ?thesis
  proof (cases "v = [] \<and> 1 < ?n")
    case True
    then have lts: "lineTimestampsA st' = removeShift index (lineTimestampsA st)"
      using handleLineChangeA_anchors [OF ok] by auto
    have n': "lineCountA st' = (if index < ?n then ?n - 1 else ?n)"
      using True handleLineChangeA_notes [OF ok] lineCount_spliceRemove [of "notesA st" index]
      by (simp add: lineCountA_def)
    have "k' < lineCountA st'" if mem: "k' \<in> set (map fst (lineTimestampsA st'))" for k'
    proof -
      obtain k where k: "k \<in> set (map fst (lineTimestampsA st))" "k \<noteq> index"
        "k' = (if k < index then k else k - 1)"
        using keys_removeShift [OF wf, of k' index] mem lts by auto
      have "k < ?n" using rng k(1) by blast
      then show ?thesis using k(2,3) n' by (auto split: if_splits)
    qed
    then show ?thesis
      unfolding anchorsInRange_iff lts using wfMap_removeShift lts by metis
  next
    case False
    then have n': "?n \<le> lineCountA st'"
      using handleLineChangeA_notes [OF ok] lineCount_arraySet [of "splitNl (notesA st)" index v]
      by (auto simp: lineCountA_def)
    consider (create) "index < ?n" "\<not> mapHas (lineTimestampsA st) index"
        "lineTimestampsA st' =
           mapSet index (adjustedDuration now (recordingStartTimeA st)) (lineTimestampsA st)"
      | (same) "lineTimestampsA st' = lineTimestampsA st"
      using handleLineChangeA_anchors [OF ok] False by blast
    then show ?thesis
    proof cases
      case create
      have "wfMap (lineTimestampsA st')" using create(3) wf by (simp add: wfMap_mapSet)
      moreover have "\<forall>k \<in> set (map fst (lineTimestampsA st')). k < lineCountA st'"
        unfolding create(3) keys_mapSet using rng create(1) n' by auto
      ultimately show ?thesis by (simp add: anchorsInRange_iff)
    next
      case same
      then show ?thesis using wf rng n' by (auto simp: anchorsInRange_iff)
    qed
  qed
qed

lemma handleKeyDownA_keeps_range:
  assumes inv: "anchorsInRange st" and ok: "handleKeyDownA index k cursorPos st = Inr st'"
  shows "anchorsInRange st'"
proof -
  have wf: "wfMap (lineTimestampsA st)"
    and rng: "\<forall>j \<in> set (map fst (lineTimestampsA st)). j < lineCountA st"
    using inv by (simp_all add: anchorsInRange_iff)
  define lines where "lines = splitNl (notesA st)"
  have n: "lineCountA st = length lines" by (simp add: lineCountA_def lines_def)
  have nf: "\<forall>l \<in> set lines. newline \<notin> set l" by (simp add: lines_def splitNl_no_newline)
  consider (enter) "k = Enter" "index < length lines"
    | (merge) "k = Backspace" "cursorPos = 0" "0 < index" "index - 1 < length lines"
    | (other) "st' = st"
    using ok by (auto simp: handleKeyDownA_def Let_def lines_def split: if_splits option.splits)
  then show ?thesis
  proof cases
    case enter
    let ?L = "take index lines @ take cursorPos (lines ! index) # drop cursorPos (lines ! index)
                # drop (index + 1) lines"
    have st': "st' = st\<lparr>lineTimestampsA := insertShift index (lineTimestampsA st),
                          notesA := joinNl ?L,
                          timestampMapA := syncToParentTimestampMap ?L
                                             (insertShift index (lineTimestampsA st))\<rparr>"
      using ok handleKeyDownA_Enter [OF lines_def [symmetric] enter(2), of cursorPos] enter(1)
      by simp
    have "\<forall>l \<in> set ?L. newline \<notin> set l" by (rule split_newline_free [OF nf enter(2)])
    then have "splitNl (joinNl ?L) = ?L" by (intro splitNl_joinNl) simp_all
    then have n': "lineCountA st' = length lines + 1"
      using enter(2) by (simp add: st' lineCountA_def)
    have "j' < lineCountA st'" if mem: "j' \<in> set (map fst (lineTimestampsA st'))" for j'
    proof -
      obtain j where j: "j \<in> set (map fst (lineTimestampsA st))"
        "j' = (if j < index + 1 then j else j + 1)"
        using keys_insertShift [OF wf, of j' index] mem by (auto simp: st')
      have "j < length lines" using rng j(1) n by auto
      then show ?thesis using j(2) n' by (auto split: if_splits)
    qed
    then show ?thesis
      unfolding anchorsInRange_iff using wfMap_insertShift [of index "lineTimestampsA st"]
      by (simp add: st')
  next
    case merge
    obtain i where i: "index = i + 1" using merge(3) by (cases index) auto
    have ilen: "i < length lines" using merge(4) i by simp
    let ?cur = "if i + 1 < length lines then lines ! (i + 1) else ''undefined''"
    let ?L = "spliceRemove (arraySet lines i (lines ! i @ ?cur)) (i + 1)"
    have st': "st' = st\<lparr>lineTimestampsA := removeShift (i + 1) (lineTimestampsA st),
                          notesA := joinNl ?L,
                          timestampMapA := syncToParentTimestampMap ?L
                                             (removeShift (i + 1) (lineTimestampsA st))\<rparr>"
      using ok handleKeyDownA_Backspace [OF lines_def [symmetric] ilen] merge(1,2) i by simp
    have cur_nf: "newline \<notin> set ?cur" using nf by (auto simp: newline_def)
    have lenL: "length ?L = (if i + 1 < length lines then length lines - 1 else length lines)"
      using ilen by (auto simp: spliceRemove_def arraySet_def)
    then have neL: "?L \<noteq> []" using ilen by (auto split: if_splits)
    have "\<forall>l \<in> set (arraySet lines i (lines ! i @ ?cur)). newline \<notin> set l"
      using nf cur_nf ilen
      by (auto simp: arraySet_def dest!: set_update_subset_insert [THEN subsetD])
    then have "\<forall>l \<in> set ?L. newline \<notin> set l"
      by (auto simp: spliceRemove_def dest!: in_set_takeD in_set_dropD)
    then have "splitNl (joinNl ?L) = ?L" using neL by (intro splitNl_joinNl) simp_all
    then have n': "lineCountA st' = (if i + 1 < length lines then length lines - 1 else length lines)"
      using lenL by (simp add: st' lineCountA_def)
    have "j' < lineCountA st'" if mem: "j' \<in> set (map fst (lineTimestampsA st'))" for j'
    proof -
      obtain j where j: "j \<in> set (map fst (lineTimestampsA st))" "j \<noteq> i + 1"
        "j' = (if j < i + 1 then j else j - 1)"
        using keys_removeShift [OF wf, of j' "i + 1"] mem by (auto simp: st')
      have "j < length lines" using rng j(1) n by auto
      then show ?thesis using j(2,3) n' by (auto split: if_splits)
    qed
    then show ?thesis
      unfolding anchorsInRange_iff using wfMap_removeShift [of "i + 1" "lineTimestampsA st"]
      by (simp add: st')
  next
    case other
    then show ?thesis using inv by simp
  qed
qed

lemma positionToLine_range:
  "positionToLine position lines i currentPos = Some j \<Longrightarrow> i \<le> j \<and> j < i + length lines"
proof (induction lines arbitrary: i currentPos)
  case Nil
  then show ?case by simp
next
  case (Cons l ls)
  show ?case
  proof (cases "position \<ge> currentPos \<and> position \<le> currentPos + length l + 1")
    case True
    then show ?thesis using Cons.prems by (simp add: Let_def)
  next
    case False
    then have "positionToLine position ls (i + 1) (currentPos + length l + 1) = Some j"
      using Cons.prems by (auto simp: Let_def split: if_splits)
    from Cons.IH [OF this] show ?thesis by simp
  qed
qed

lemma syncStep_range:
  assumes "wfMap a" and "\<forall>k \<in> set (map fst a). k < length lines"
  shows "wfMap (syncStep lines e a) \<and> (\<forall>k \<in> set (map fst (syncStep lines e a)). k < length lines)"
proof (cases "positionToLine (fst e) lines 0 0")
  case None
  then show ?thesis using assms by (simp add: syncStep_def case_prod_unfold)
next
  case (Some i)
  then have "i < length lines" using positionToLine_range [OF Some] by simp
  then show ?thesis
    using assms Some wfMap_mapSet [OF assms(1), of i "snd e"]
    by (simp add: syncStep_def case_prod_unfold keys_mapSet del: set_map)
qed

lemma syncFold_range:
  assumes "wfMap a" and "\<forall>k \<in> set (map fst a). k < length lines"
  shows "wfMap (fold (syncStep lines) m a)
         \<and> (\<forall>k \<in> set (map fst (fold (syncStep lines) m a)). k < length lines)"
  using assms
proof (induction m arbitrary: a)
  case Nil
  then show ?case by simp
next
  case (Cons e m)
  have "wfMap (syncStep lines e a)"
    and "\<forall>k \<in> set (map fst (syncStep lines e a)). k < length lines"
    using syncStep_range [OF Cons.prems, of e] by simp_all
  from Cons.IH [OF this] show ?case by simp
qed

lemma syncFromParent_keeps_range: "anchorsInRange (syncFromParent st)"
proof -
  have "lineTimestampsA (syncFromParent st)
        = fold (syncStep (splitNl (notesA st))) (timestampMapA st) []"
    by (simp add: syncFromParent_def syncStep_def)
  moreover have "lineCountA (syncFromParent st) = length (splitNl (notesA st))"
    by (simp add: syncFromParent_def lineCountA_def)
  ultimately show ?thesis
    using syncFold_range [of "[]" "splitNl (notesA st)" "timestampMapA st"]
    by (simp add: anchorsInRange_iff wfMap_def del: set_map)
qed

lemma line_editor_anchor_count:
  "anchorsInRange st \<Longrightarrow> length (lineTimestampsA st) \<le> lineCountA st"
  unfolding anchorsInRange_iff by (rule anchors_count) blast+

lemma line_editor_never_more_anchors_than_lines:
  assumes "anchorsInRange st" and "runA es st = Inr st'"
  shows "length (lineTimestampsA st') \<le> lineCountA st'"
proof -
  have "anchorsInRange st'"
    using assms
  proof (induction es arbitrary: st)
    case Nil
    then show ?case by simp
  next
    case (Cons e es)
    show ?case
    proof (cases e)
      case (LineChange now index v)
      then show ?thesis
        using Cons.prems(2) Cons.IH [OF syncFromParent_keeps_range]
        by (auto split: sum.splits)
    next
      case (KeyDown index k cursorPos)
      then show ?thesis
        using Cons.prems(2) Cons.IH [OF syncFromParent_keeps_range]
        by (auto split: sum.splits)
    qed
  qed
  then show ?thesis by (rule line_editor_anchor_count)
qed

lemma startA_in_range: "anchorsInRange startA"
  by (simp add: anchorsInRange_def startA_def wfMap_def)

section \<open>C1: from a line to its offset and back\<close>

text \<open>
  C1 says that the line found for the start offset of line \<open>i\<close> is \<open>i\<close> again. The
  loop of the effect accepts \<open>position <= lineEnd + 1\<close>, which is the start of the next
  line, so the start offset of every line but the first is attributed to the line before it
  (\<open>round_trip_previous_line\<close>). With the lines \<open>ab\<close> and \<open>cd\<close>, line 1 starts at
  offset 3, offset 3 is attributed to line 0, and an anchor of line 1 sent to the parent and
  read back sits on line 0.
\<close>

theorem round_trip_moves_anchor:
  "lineStartPos [''ab'', ''cd''] 1 = 3
   \<and> positionToLine (lineStartPos [''ab'', ''cd''] 1) [''ab'', ''cd''] 0 0 = Some 0
   \<and> lineTimestampsA
        (syncFromParent \<lparr>notesA = ''ab\<newline>cd'',
                          timestampMapA = syncToParentTimestampMap [''ab'', ''cd''] [(1, 5000)],
                          lineTimestampsA = [(1, 5000)], isRecordingA = True,
                          recordingStartTimeA = 0\<rparr>)
      = [(0, 5000)]"
  by (simp add: lineStartPos_def syncFromParent_def syncToParentTimestampMap_def newline_def)


section \<open>C2: when an anchor is created\<close>

text \<open>
  C2 says that a content edit creates an anchor only when the line was empty before. The
  offset-indexed editor does not look at the previous content: with the line \<open>a\<close> typed
  before the recording and no anchor stored, changing it to \<open>ab\<close> while recording
  creates an anchor at its offset. The line-indexed editor does test the previous content
  (\<open>line_editor_creates_iff\<close>).
\<close>

theorem offset_editor_anchors_nonempty_line:
  "trim (splitNl (notesC lateC) ! 0) = ''a''
   \<and> handleLineChangeC 5000 0 ''ab'' lateC
       = lateC\<lparr>timestampMapC := [(0, 3000)], notesC := ''ab''\<rparr>"
  by (simp add: lateC_def handleLineChangeC_def Let_def trim_def isSpace_def arraySet_def
        lineStartPos_def mapHas_def adjustedDuration_def TIME_OFFSET_MS_def newline_def)


section \<open>C3: splitting a line\<close>

text \<open>
  C3 says that a split moves every anchor at or after the new line up by one and leaves the
  new line without an anchor. The offset-indexed editor does not touch its map on Enter:
  with an empty line 0 and the anchor of line 1 stored under offset 1, Enter on line 0 makes
  offset 1 the start of the new empty line 1, which now shows the anchor, while the old line,
  now line 2 at offset 2, has none. The line-indexed editor renumbers as the claim says
  (\<open>split_renumbers_line_editor\<close>).
\<close>

theorem offset_editor_split_keeps_offsets:
  "lineStartPos (splitNl (notesC shiftedC)) 1 = 1
   \<and> handleKeyDownC 0 Enter 0 shiftedC = Inr (shiftedC\<lparr>notesC := ''\<newline>\<newline>x''\<rparr>)
   \<and> splitNl ''\<newline>\<newline>x'' = ['''', '''', ''x'']
   \<and> lineStartPos ['''', '''', ''x''] 1 = 1
   \<and> lineStartPos ['''', '''', ''x''] 2 = 2
   \<and> mapGet (timestampMapC shiftedC) 1 = Some 3000
   \<and> mapGet (timestampMapC shiftedC) 2 = None"
  by (simp add: shiftedC_def handleKeyDownC_def Let_def arraySet_def spliceInsert_def
        lineStartPos_def mapGet_def newline_def)


section \<open>C4: removing a line\<close>

text \<open>
  C4. A line removal at \<open>k\<close>, by emptying a line when more than one exists or by
  Backspace at the start of line \<open>k\<close>, leaves exactly the renumbered anchors: the
  entry at \<open>k\<close> is dropped, every entry above \<open>k\<close> has its key decremented by one,
  every entry below \<open>k\<close> keeps its key, and every kept entry keeps its time.
\<close>

theorem remove_renumbers:
  assumes wf: "wfMap (lineTimestampsA st)"
  shows "(1 < lineCountA st \<longrightarrow>
           (\<exists>st'. handleLineChangeA now k [] st = Inr st' \<and>
              lineTimestampsA st' =
                map (\<lambda>(j, t). (if j < k then j else j - 1, t))
                    (filter (\<lambda>(j, t). j \<noteq> k) (lineTimestampsA st))))
       \<and> (0 < k \<and> k < lineCountA st \<longrightarrow>
           (\<exists>st'. handleKeyDownA k Backspace 0 st = Inr st' \<and>
              lineTimestampsA st' =
                map (\<lambda>(j, t). (if j < k then j else j - 1, t))
                    (filter (\<lambda>(j, t). j \<noteq> k) (lineTimestampsA st))))"
  using removeShift_eq [OF wf, of k]
  by (auto simp: handleLineChangeA_def handleKeyDownA_def lineCountA_def Let_def)


theorem remove_renumbers_witness:
  "wfMap (lineTimestampsA exA) \<and> 1 < lineCountA exA \<and> (0::nat) < 1 \<and> 1 < lineCountA exA
   \<and> (\<exists>st'. handleLineChangeA 0 1 [] exA = Inr st' \<and> lineTimestampsA st' = [(0, 100), (1, 300)])
   \<and> (\<exists>st'. handleKeyDownA 1 Backspace 0 exA = Inr st' \<and> lineTimestampsA st' = [(0, 100), (1, 300)])"
  using remove_renumbers [of exA 0 1]
  by (simp add: exA_def wfMap_def lineCountA_def newline_def)


section \<open>C5: splitting and merging back\<close>

text \<open>
  C5 says that a split followed at once by the merge of the two lines gives back the anchors
  as they were. The two renumberings of the handlers do undo each other
  (\<open>removeShift_insertShift\<close>), but after each key the component's effect rebuilds
  \<open>lineTimestamps\<close> from the offsets sent to the parent, and it attributes the start offset
  of a line to the line before it. After \<open>a\<close>, Enter, \<open>b\<close>, Enter, \<open>c\<close> the
  component holds the anchors 4000 on line 0 and 7000 on line 1; Enter at the end of line 1
  and then Backspace at the start of line 2 give back the text, and leave the single anchor
  7000 on line 0.
\<close>

theorem split_merge_loses_anchor:
  "runA [LineChange 1003000 0 ''a'', KeyDown 0 Enter 1, LineChange 1006000 1 ''b'',
         KeyDown 1 Enter 1, LineChange 1009000 2 ''c''] startA = Inr abcA
   \<and> runA [KeyDown 1 Enter 1, KeyDown 2 Backspace 0] abcA
       = Inr (abcA\<lparr>lineTimestampsA := [(0, 7000)], timestampMapA := [(0, 7000)]\<rparr>)"
  by (simp add: startA_def abcA_def handleLineChangeA_def handleKeyDownA_def syncFromParent_def
        syncToParentTimestampMap_def Let_def arraySet_def spliceInsert_def spliceRemove_def
        insertShift_def removeShift_def lineStartPos_def mapHas_def adjustedDuration_def
        TIME_OFFSET_MS_def trim_def isSpace_def newline_def)


section \<open>C6: anchors and lines\<close>

text \<open>
  C6 says that there are never more anchors than lines. In the offset-indexed editor an
  anchor stays under the offset at which it was created, so a line whose start offset moved
  gets a second anchor at its next edit: from the initial state, Enter on line 0, \<open>b\<close>
  typed on line 1, \<open>a\<close> typed on line 0 and \<open>bc\<close> typed on line 1 leave three anchors
  on two lines. The line-indexed editor keeps every anchor on an existing line, through its
  handlers and through the effect that follows each of them, so it never has more anchors
  than lines (\<open>line_editor_never_more_anchors_than_lines\<close>).
\<close>

theorem offset_editor_more_anchors_than_lines:
  "runC [KeyDown 0 Enter 0, LineChange 3000 1 ''b'', LineChange 4000 0 ''a'',
         LineChange 5000 1 ''bc''] startC
     = Inr (startC\<lparr>timestampMapC := [(1, 1000), (0, 2000), (2, 3000)], notesC := ''a\<newline>bc''\<rparr>)
   \<and> lineCountC (startC\<lparr>timestampMapC := [(1, 1000), (0, 2000), (2, 3000)], notesC := ''a\<newline>bc''\<rparr>) = 2
   \<and> length (timestampMapC (startC\<lparr>timestampMapC := [(1, 1000), (0, 2000), (2, 3000)],
                                    notesC := ''a\<newline>bc''\<rparr>)) = 3"
  by (simp add: startC_def handleKeyDownC_def handleLineChangeC_def Let_def arraySet_def
        spliceInsert_def lineStartPos_def mapHas_def adjustedDuration_def TIME_OFFSET_MS_def
        trim_def isSpace_def lineCountC_def newline_def)


section \<open>C7: the time stored with a new anchor\<close>

text \<open>
  C7. When a content edit creates an anchor (recording active, the line empty before and
  not after, no anchor on the line) the edit completes and the time stored for the line is
  \<open>max 0 ((now - startedAt) - 2000)\<close>; and no content edit and no key leaves a negative
  time in the map if none was stored before. A keystroke 500 ms after the start stores 0.
\<close>

theorem created_anchor_time:
  assumes nonneg: "\<forall>e \<in> set (lineTimestampsA st). 0 \<le> snd e"
  shows "(\<forall>st'. handleLineChangeA now index v st = Inr st'
              \<longrightarrow> (\<forall>e \<in> set (lineTimestampsA st'). 0 \<le> snd e))
       \<and> (\<forall>st'. handleKeyDownA index k cursorPos st = Inr st'
              \<longrightarrow> (\<forall>e \<in> set (lineTimestampsA st'). 0 \<le> snd e))
       \<and> (isRecordingA st \<and> index < lineCountA st
            \<and> trim (splitNl (notesA st) ! index) = [] \<and> trim v \<noteq> []
            \<and> \<not> mapHas (lineTimestampsA st) index
          \<longrightarrow> (\<exists>st'. handleLineChangeA now index v st = Inr st'
                 \<and> mapGet (lineTimestampsA st') index
                     = Some (max 0 ((now - recordingStartTimeA st) - 2000))))"
proof -
  have a: "\<forall>e \<in> set (removeShift index (lineTimestampsA st)). 0 \<le> snd e"
    using removeShift_times [of _ index "lineTimestampsA st"] nonneg by fastforce
  have a': "\<forall>e \<in> set (insertShift index (lineTimestampsA st)). 0 \<le> snd e"
    using insertShift_times [of _ index "lineTimestampsA st"] nonneg by fastforce
  have b: "\<forall>e \<in> set (mapSet index (adjustedDuration now (recordingStartTimeA st)) (lineTimestampsA st)). 0 \<le> snd e"
    using mapSet_times [of _ index "adjustedDuration now (recordingStartTimeA st)" "lineTimestampsA st"] nonneg
    by (fastforce simp: adjustedDuration_def)
  have c: "trim v \<noteq> [] \<Longrightarrow> v \<noteq> []" by (auto simp: trim_def)
  have first: "\<forall>e \<in> set (lineTimestampsA st'). 0 \<le> snd e"
    if ok: "handleLineChangeA now index v st = Inr st'" for st'
    using handleLineChangeA_anchors [OF ok]
  proof (elim disjE conjE)
    assume "lineTimestampsA st' = removeShift index (lineTimestampsA st)"
    then show ?thesis using a by simp
  next
    assume "lineTimestampsA st' =
              mapSet index (adjustedDuration now (recordingStartTimeA st)) (lineTimestampsA st)"
    then show ?thesis using b by simp
  next
    assume "lineTimestampsA st' = lineTimestampsA st"
    then show ?thesis using nonneg by simp
  qed
  have keys: "\<forall>e \<in> set (lineTimestampsA st'). 0 \<le> snd e"
    if ok: "handleKeyDownA index k cursorPos st = Inr st'" for st'
    using handleKeyDownA_anchors [OF ok] a a' nonneg by (elim disjE) simp_all
  have second: "\<exists>st'. handleLineChangeA now index v st = Inr st'
                  \<and> mapGet (lineTimestampsA st') index
                      = Some (max 0 ((now - recordingStartTimeA st) - 2000))"
    if conds: "isRecordingA st" "index < lineCountA st" "trim (splitNl (notesA st) ! index) = []"
       "trim v \<noteq> []" "\<not> mapHas (lineTimestampsA st) index"
  proof -
    obtain st' where ok: "handleLineChangeA now index v st = Inr st'"
      using handleLineChangeA_returns [OF conds(2)] by blast
    have "lineTimestampsA st' =
            mapSet index (adjustedDuration now (recordingStartTimeA st)) (lineTimestampsA st)"
      using handleLineChangeA_anchors [OF ok] conds c by blast
    then have "mapGet (lineTimestampsA st') index
                 = Some (max 0 ((now - recordingStartTimeA st) - 2000))"
      by (simp add: mapGet_mapSet adjustedDuration_def TIME_OFFSET_MS_def)
    then show ?thesis using ok by blast
  qed
  show ?thesis using first keys second by blast
qed


theorem created_anchor_time_witness:
  "lineTimestampsA startA = []
   \<and> isRecordingA startA \<and> 0 < lineCountA startA \<and> trim (splitNl (notesA startA) ! 0) = []
   \<and> trim ''a'' \<noteq> [] \<and> \<not> mapHas (lineTimestampsA startA) 0
   \<and> (\<exists>st'. handleLineChangeA (1000000 + 500) 0 ''a'' startA = Inr st'
          \<and> mapGet (lineTimestampsA st') 0 = Some 0)"
  using created_anchor_time [of startA "1000000 + 500" 0 "''a''" OtherKey 0]
  by (simp add: startA_def lineCountA_def trim_def isSpace_def mapHas_def)


section \<open>C8: the nearest anchor\<close>

text \<open>
  C8. The scan of \<open>findNearestTimestamp\<close> returns the time of the stored anchor at the
  least absolute distance from the target, the first one in the map's order among those at
  that distance, when that distance is below 20, and nothing when it is 20 or more or when no
  anchor is stored.
\<close>

theorem nearest_anchor_lookup:
  "findNearestTimestamp tm index = nearestWithin tm index"
proof -
  have "findNearestTimestamp tm index = fst (fold (scanStep index) tm (None, \<infinity>))"
    by (simp only: findNearestTimestamp_def scanStep_def)
  then show ?thesis by (simp add: findNearest_scan)
qed


text \<open>
  Of two anchors at distance 2 the first one stored is returned; a single anchor at distance
  25 gives nothing.
\<close>

theorem nearest_anchor_lookup_witness:
  "nearestWithin [(3, 100), (7, 200), (30, 300)] 5 = Some 100
   \<and> nearestWithin [(30, 300)] 5 = None"
  using nearest_anchor_lookup [of "[(3, 100), (7, 200), (30, 300)]" 5]
    nearest_anchor_lookup [of "[(30, 300)]" 5]
  by (simp add: findNearestTimestamp_def)


section \<open>C9: a content edit at any index\<close>





section \<open>C10: the exporter and the inline marker\<close>

text \<open>
  C10, as amended. For an elapsed time from 0 to below 100 hours the marker is matched in
  full by the exporter's pattern. In a text that has the marker after a part \<open>pre\<close> in
  which the pattern matches nowhere (the exporter leaves \<open>pre\<close> as it is), the exporter
  keeps \<open>pre\<close>, deletes the marker together with all white space that follows it, and
  goes on with the rest of the text.
\<close>

theorem marker_removed:
  assumes "0 \<le> ms" and "ms < 360000000" and "removeTimestamps pre = pre"
  shows "matchTimestamp (timestampMarker ms) = Some []
       \<and> removeTimestamps (pre @ timestampMarker ms @ post)
           = pre @ removeTimestamps (dropWhile isSpace post)"
proof -
  have full: "matchTimestamp (timestampMarker ms) = Some []"
    using marker_matches [OF assms(1,2), of "[]"] by simp
  obtain t where t: "timestampMarker ms = CHR ''['' # t"
    by (simp add: timestampMarker_def)
  have "removeTimestamps (CHR ''['' # t @ post) = removeTimestamps (dropWhile isSpace post)"
    using marker_matches [OF assms(1,2), of post] by (simp add: t)
  then have "removeTimestamps (pre @ timestampMarker ms @ post)
             = pre @ removeTimestamps (dropWhile isSpace post)"
    using removeTimestamps_prefix [OF assms(3), of "t @ post"] by (simp add: t)
  then show ?thesis using full by simp
qed


theorem marker_removed_witness:
  "(0::int) \<le> 15000 \<and> (15000::int) < 360000000 \<and> removeTimestamps ''note '' = ''note ''
   \<and> matchTimestamp (timestampMarker 15000) = Some []
   \<and> removeTimestamps (''note '' @ timestampMarker 15000 @ ''  hello'') = ''note hello''"
proof -
  have pre: "removeTimestamps ''note '' = ''note ''"
    by (simp add: matchTimestamp_def matchCore_def isDigit_def)
  have post: "removeTimestamps (dropWhile isSpace ''  hello'') = ''hello''"
    by (simp add: matchTimestamp_def matchCore_def isDigit_def isSpace_def)
  show ?thesis
    using marker_removed [of 15000 "''note ''" "''  hello''"] pre post by simp
qed


text \<open>
  As stated, C10 fails: a time of day written in the notes is deleted as well, and so is a
  line break that follows the marker.
\<close>

theorem exporter_removes_more_than_marker:
  "removeTimestamps (''see 12:30:00 '' @ timestampMarker 15000 @ ''x'') = ''see x''
   \<and> removeTimestamps (timestampMarker 15000 @ ''\<newline>next'') = ''next''"
  by (simp add: timestampMarker_def formatTime_15000 matchTimestamp_def matchCore_def
        matchClose_def isDigit_def isColon_def isSpace_def)

end
